theory Spec2Isabelle
  imports Main "HOL-Library.Sublist"
begin

section \<open>Python values used by \<^verbatim>\<open>tools/csa_to_grizzly_domain.py\<close>\<close>

text \<open>
  A Python \<^verbatim>\<open>str\<close> is a \<^typ>\<open>string\<close>; a text outside ASCII is held as its UTF-8
  encoding, one \<^typ>\<open>char\<close> per byte, and \<^verbatim>\<open>bytes\<close> are a \<^typ>\<open>string\<close> too.
  Every exception the script can meet is a value of \<open>error\<close>; a computation that may
  raise returns \<open>error + 'a\<close>, \<open>Inl\<close> carrying the exception.
\<close>

datatype error =
    Exception string
  | UnicodeDecodeError
  | IndexError
  | ValueError
  | FileNotFoundError
  | FileExistsError
  | NotADirectoryError
  | IsADirectoryError
  | OSError

text \<open>\<^verbatim>\<open>str.lower()\<close> on ASCII letters; every other byte is left as it is.\<close>

definition lower_char :: "char \<Rightarrow> char" where
  "lower_char c =
     (case map_of (zip ''ABCDEFGHIJKLMNOPQRSTUVWXYZ'' ''abcdefghijklmnopqrstuvwxyz'') c of
        None \<Rightarrow> c
      | Some d \<Rightarrow> d)"

definition lower :: "string \<Rightarrow> string" where
  "lower s = map lower_char s"

text \<open>\<^verbatim>\<open>s.split(c)\<close> for a one-character separator: every separator splits.\<close>

fun split :: "char \<Rightarrow> string \<Rightarrow> string list" where
  "split c [] = [[]]"
| "split c (x # xs) =
     (if x = c then [] # split c xs
      else (case split c xs of [] \<Rightarrow> [[x]] | t # ts \<Rightarrow> (x # t) # ts))"

text \<open>\<^verbatim>\<open>s.split(c, n)\<close>: at most \<open>n\<close> splits, taken from the left; the rest is one piece.\<close>

fun split_max :: "char \<Rightarrow> nat \<Rightarrow> string \<Rightarrow> string list" where
  "split_max c 0 s = [s]"
| "split_max c (Suc n) s =
     (case dropWhile (\<lambda>x. x \<noteq> c) s of
        [] \<Rightarrow> [s]
      | _ # rest \<Rightarrow> takeWhile (\<lambda>x. x \<noteq> c) s # split_max c n rest)"

text \<open>\<^verbatim>\<open>xs[-1]\<close>: the last element, \<^verbatim>\<open>IndexError\<close> on an empty list.\<close>

definition py_last :: "'a list \<Rightarrow> error + 'a" where
  "py_last xs = (case xs of [] \<Rightarrow> Inl IndexError | _ # _ \<Rightarrow> Inr (last xs))"

text \<open>
  \<^verbatim>\<open>s.replace(old, new)\<close>: the occurrences of \<open>old\<close> are found from the left and do not
  overlap; an empty \<open>old\<close> matches before every character and at the end.
\<close>

function replace :: "string \<Rightarrow> string \<Rightarrow> string \<Rightarrow> string" where
  "replace old new s =
     (if old = [] then new @ concat (map (\<lambda>c. c # new) s)
      else if prefix old s then new @ replace old new (drop (length old) s)
      else (case s of [] \<Rightarrow> [] | c # cs \<Rightarrow> c # replace old new cs))"
  by pat_completeness auto
termination
  by (relation "measure (\<lambda>(old, new, s). length s)") (auto simp: prefix_def)

text \<open>\<^verbatim>\<open>sep.join(xs)\<close>.\<close>

fun join :: "string \<Rightarrow> string list \<Rightarrow> string" where
  "join sep [] = []"
| "join sep [x] = x"
| "join sep (x # y # ys) = x @ sep @ join sep (y # ys)"

text \<open>
  A string has no border when no proper prefix of it is also a suffix: its occurrences
  in a text cannot overlap.
\<close>

definition no_border :: "string \<Rightarrow> bool" where
  "no_border p = (\<forall>k\<in>{1..<length p}. take k p \<noteq> drop (length p - k) p)"

text \<open>
  \<^verbatim>\<open>b.decode('utf-8')\<close> with the default strict handler: \<open>utf8_len b bs\<close> is the length
  of the well-formed sequence that starts with byte \<open>b\<close> followed by \<open>bs\<close>, 0 when there
  is none. A well-formed input decodes to the text it encodes.
\<close>

definition utf8_tail :: "nat \<Rightarrow> bool" where
  "utf8_tail c = (128 \<le> c \<and> c \<le> 191)"

definition utf8_len :: "nat \<Rightarrow> nat list \<Rightarrow> nat" where
  "utf8_len b bs =
     (if b < 128 then 1
      else if 194 \<le> b \<and> b \<le> 223 then
        (case bs of c1 # _ \<Rightarrow> if utf8_tail c1 then 2 else 0 | _ \<Rightarrow> 0)
      else if 224 \<le> b \<and> b \<le> 239 then
        (case bs of
           c1 # c2 # _ \<Rightarrow>
             if (if b = 224 then 160 else 128) \<le> c1 \<and> c1 \<le> (if b = 237 then 159 else 191)
                \<and> utf8_tail c2
             then 3 else 0
         | _ \<Rightarrow> 0)
      else if 240 \<le> b \<and> b \<le> 244 then
        (case bs of
           c1 # c2 # c3 # _ \<Rightarrow>
             if (if b = 240 then 144 else 128) \<le> c1 \<and> c1 \<le> (if b = 244 then 143 else 191)
                \<and> utf8_tail c2 \<and> utf8_tail c3
             then 4 else 0
         | _ \<Rightarrow> 0)
      else 0)"

fun valid_utf8 :: "nat list \<Rightarrow> bool" where
  "valid_utf8 [] = True"
| "valid_utf8 (b # bs) =
     (case utf8_len b bs of 0 \<Rightarrow> False | Suc k \<Rightarrow> valid_utf8 (drop k bs))"

definition decode_utf8 :: "string \<Rightarrow> error + string" where
  "decode_utf8 bs = (if valid_utf8 (map of_char bs) then Inr bs else Inl UnicodeDecodeError)"

section \<open>Paths\<close>

text \<open>
  A \<^verbatim>\<open>pathlib.Path\<close> (POSIX flavour) is the list of its parts. Parsing a string splits
  it at \<^verbatim>\<open>/\<close> and drops the empty and the \<^verbatim>\<open>.\<close> components; \<^verbatim>\<open>..\<close> is kept as a name; an
  absolute path has the root \<^verbatim>\<open>/\<close> as its first part (a string with exactly two leading
  slashes is read the same way). Joining with an absolute string discards what came
  before.
\<close>

type_synonym path = "string list"

definition is_absolute :: "string \<Rightarrow> bool" where
  "is_absolute s = (case s of [] \<Rightarrow> False | c # _ \<Rightarrow> c = CHR ''/'')"

definition parts :: "string \<Rightarrow> path" where
  "parts s =
     (if is_absolute s then [''/''] else []) @
     filter (\<lambda>c. c \<noteq> [] \<and> c \<noteq> ''.'') (split CHR ''/'' s)"

definition joinpath :: "path \<Rightarrow> string \<Rightarrow> path" where
  "joinpath p s = (if is_absolute s then parts s else p @ parts s)"

definition path_name :: "path \<Rightarrow> string" where
  "path_name p = (if p = [] \<or> p = [''/''] then [] else last p)"

definition parent :: "path \<Rightarrow> path" where
  "parent p = (if p = [''/''] then p else butlast p)"

text \<open>\<^verbatim>\<open>name.rfind('.')\<close>: the index of the last dot.\<close>

definition rfind :: "char \<Rightarrow> string \<Rightarrow> nat option" where
  "rfind c s =
     (if c \<in> set s then Some (length s - 1 - length (takeWhile (\<lambda>x. x \<noteq> c) (rev s)))
      else None)"

text \<open>\<^verbatim>\<open>PurePath.stem\<close>: the name without its last suffix.\<close>

definition stem :: "path \<Rightarrow> string" where
  "stem p =
     (let name = path_name p in
      case rfind CHR ''.'' name of
        None \<Rightarrow> name
      | Some i \<Rightarrow> if 0 < i \<and> i < length name - 1 then take i name else name)"

definition relative_to :: "path \<Rightarrow> path \<Rightarrow> error + path" where
  "relative_to p other =
     (if prefix other p then Inr (drop (length other) p) else Inl ValueError)"

definition path_str :: "path \<Rightarrow> string" where
  "path_str p =
     (case p of
        [] \<Rightarrow> ''.''
      | r # rest \<Rightarrow> if r = ''/'' then ''/'' @ join ''/'' rest else join ''/'' p)"

section \<open>The file system\<close>

text \<open>
  A path is absent, a directory or a file; permissions, links and the other failures of
  an operating system are outside the model. What \<^verbatim>\<open>yaml.safe_dump\<close> is given is a
  mapping of strings, integers and lists, kept as the list of its items in the order of
  the dict literal. The text \<^verbatim>\<open>safe_dump\<close> makes of a mapping is kept symbolic, as
  \<open>Yaml\<close> of the mapping.
\<close>

datatype yaml = YStr string | YInt int | YList "yaml list"

type_synonym py_dict = "(string \<times> yaml) list"

datatype content = Text string | Yaml py_dict

datatype node = Dir | File content

type_synonym fs = "path \<Rightarrow> node option"

text \<open>\<^verbatim>\<open>shutil.rmtree(p)\<close>: \<open>p\<close> and everything below it go.\<close>

definition rmtree :: "path \<Rightarrow> fs \<Rightarrow> (error + unit) \<times> fs" where
  "rmtree p s =
     (case s p of
        None \<Rightarrow> (Inl FileNotFoundError, s)
      | Some (File _) \<Rightarrow> (Inl NotADirectoryError, s)
      | Some Dir \<Rightarrow> (Inr (), \<lambda>q. if prefix p q then None else s q))"

text \<open>\<^verbatim>\<open>p.mkdir(exist_ok=True)\<close>: no parents are created.\<close>

definition mkdir_exist_ok :: "path \<Rightarrow> fs \<Rightarrow> (error + unit) \<times> fs" where
  "mkdir_exist_ok p s =
     (case s p of
        Some Dir \<Rightarrow> (Inr (), s)
      | Some (File _) \<Rightarrow> (Inl FileExistsError, s)
      | None \<Rightarrow>
          (case s (parent p) of
             None \<Rightarrow> (Inl FileNotFoundError, s)
           | Some (File _) \<Rightarrow> (Inl NotADirectoryError, s)
           | Some Dir \<Rightarrow> (Inr (), s(p \<mapsto> Dir))))"

text \<open>\<^verbatim>\<open>p.write_text(data)\<close>: creates or truncates the file \<open>p\<close> in an existing directory.\<close>

definition write_text :: "path \<Rightarrow> content \<Rightarrow> fs \<Rightarrow> (error + unit) \<times> fs" where
  "write_text p data s =
     (case s p of
        Some Dir \<Rightarrow> (Inl IsADirectoryError, s)
      | _ \<Rightarrow>
          (case s (parent p) of
             None \<Rightarrow> (Inl FileNotFoundError, s)
           | Some (File _) \<Rightarrow> (Inl NotADirectoryError, s)
           | Some Dir \<Rightarrow> (Inr (), s(p \<mapsto> File data))))"

section \<open>\<^verbatim>\<open>run_command\<close>\<close>

record completed_process =
  returncode :: int
  stdout :: string
  stderr :: string

definition RED :: string where
  "RED = [CHR 0x1B] @ ''[31m''"

definition RESET :: string where
  "RESET = [CHR 0x1B] @ ''[39m''"

text \<open>
  \<open>subprocess_run\<close> stands for \<^verbatim>\<open>subprocess.run(arguments, check=False, stdout=PIPE,
  stderr=PIPE)\<close>: it raises when the program cannot be started and returns the completed
  process otherwise.
\<close>

definition run_command ::
  "(string list \<Rightarrow> error + completed_process) \<Rightarrow> string list \<Rightarrow> error + string" where
  "run_command subprocess_run arguments =
     (case subprocess_run arguments of
        Inl e \<Rightarrow> Inl e
      | Inr cmd_result \<Rightarrow>
          if returncode cmd_result \<noteq> 0 then
            (case decode_utf8 (stderr cmd_result) of
               Inl e \<Rightarrow> Inl e
             | Inr msg \<Rightarrow> Inl (Exception (RED @ msg @ RESET)))
          else decode_utf8 (stdout cmd_result))"

section \<open>\<^verbatim>\<open>main\<close>\<close>

record args =
  grizzly_repo_path :: string
  domain_name :: string
  source_dataset :: string
  schedule_interval :: string

text \<open>
  What the run meets outside the target repository: the temporary directory made at
  import, the behaviour of \<^verbatim>\<open>subprocess.run\<close>, and the entries the recursive traversal of
  \<^verbatim>\<open>TEMP_DIR/backends/bigquery/sql\<close> yields after the clone, in its order; each entry is
  its path relative to that directory and what \<^verbatim>\<open>read_text()\<close> returns for it. The
  temporary directory is fresh, so the target domain is not inside it.
\<close>

record env =
  TEMP_DIR :: string
  subprocess_run :: "string list \<Rightarrow> error + completed_process"
  sql_tree :: "(string \<times> (error + string)) list"

definition PLACEHOLDER :: string where
  "PLACEHOLDER = ''[MY_PROJECT_ID].[MY_DATASET_ID]''"

text \<open>Line 92: \<^verbatim>\<open>args.domain_name.lower().split('/')[-1]\<close>.\<close>

definition dataset_name :: "string \<Rightarrow> error + string" where
  "dataset_name domain = py_last (split CHR ''/'' (lower domain))"

text \<open>Line 111: \<^verbatim>\<open>dataset_name + '.' + str(f.stem.lower()).split('_', 2)[-1]\<close>.\<close>

definition csa_file_name :: "string \<Rightarrow> string \<Rightarrow> error + string" where
  "csa_file_name dataset stem_f =
     (case py_last (split_max CHR ''_'' 2 (lower stem_f)) of
        Inl e \<Rightarrow> Inl e
      | Inr t \<Rightarrow> Inr (dataset @ ''.'' @ t))"

text \<open>Lines 118-119.\<close>

definition sql_file_data :: "string \<Rightarrow> string \<Rightarrow> string" where
  "sql_file_data source text = replace PLACEHOLDER source text"

text \<open>Lines 120-124: the descriptor of the script written to \<open>sql_file\<close>.\<close>

definition yml_file_data :: "path \<Rightarrow> string \<Rightarrow> path \<Rightarrow> error + py_dict" where
  "yml_file_data grizzly_path name sql_file =
     (case relative_to sql_file grizzly_path of
        Inl e \<Rightarrow> Inl e
      | Inr rel \<Rightarrow>
          Inr [(''target_table_name'', YStr name),
               (''job_write_mode'', YStr ''WRITE_TRUNCATE''),
               (''stage_loading_query'', YStr (path_str rel))])"

text \<open>Lines 105-108: clean up the target folder.\<close>

definition reset_domain :: "path \<Rightarrow> fs \<Rightarrow> (error + unit) \<times> fs" where
  "reset_domain grizzly_path s =
     (case (if s grizzly_path \<noteq> None then rmtree grizzly_path s else (Inr (), s)) of
        (Inl e, s1) \<Rightarrow> (Inl e, s1)
      | (Inr _, s1) \<Rightarrow>
          (case mkdir_exist_ok grizzly_path s1 of
             (Inl e, s2) \<Rightarrow> (Inl e, s2)
           | (Inr _, s2) \<Rightarrow> mkdir_exist_ok (joinpath grizzly_path ''queries'') s2))"

text \<open>Line 110: the entries that \<^verbatim>\<open>glob('**/*.sql')\<close> yields, in traversal order.\<close>

definition sql_dir :: "string \<Rightarrow> path" where
  "sql_dir temp_dir = joinpath (joinpath (joinpath (parts temp_dir) ''backends'') ''bigquery'') ''sql''"

definition glob_sql :: "string \<Rightarrow> (string \<times> (error + string)) list \<Rightarrow> (path \<times> (error + string)) list" where
  "glob_sql temp_dir tree =
     filter (\<lambda>(f, _). suffix ''.sql'' (path_name f))
       (map (\<lambda>(rel, text). (joinpath (sql_dir temp_dir) rel, text)) tree)"

text \<open>
  Lines 111-127, one turn of the loop for the entry \<open>f\<close>: the result is the name appended
  to \<^verbatim>\<open>etl_scope\<close>. The descriptor is written before the SQL file.
\<close>

definition copy_script ::
  "path \<Rightarrow> string \<Rightarrow> string \<Rightarrow> path \<times> (error + string) \<Rightarrow> fs \<Rightarrow> (error + string) \<times> fs" where
  "copy_script grizzly_path dataset source f s =
     (case csa_file_name dataset (stem (fst f)) of
        Inl e \<Rightarrow> (Inl e, s)
      | Inr name \<Rightarrow>
          (let sql_file = joinpath (joinpath grizzly_path ''queries'') (name @ ''.sql'');
               yml_file = joinpath grizzly_path (name @ ''.yml'')
           in case snd f of
                Inl e \<Rightarrow> (Inl e, s)
              | Inr text \<Rightarrow>
                  (case yml_file_data grizzly_path name sql_file of
                     Inl e \<Rightarrow> (Inl e, s)
                   | Inr descriptor \<Rightarrow>
                       (case write_text yml_file (Yaml descriptor) s of
                          (Inl e, s1) \<Rightarrow> (Inl e, s1)
                        | (Inr _, s1) \<Rightarrow>
                            (case write_text sql_file (Text (sql_file_data source text)) s1 of
                               (Inl e, s2) \<Rightarrow> (Inl e, s2)
                             | (Inr _, s2) \<Rightarrow> (Inr (stem yml_file), s2))))))"

text \<open>Lines 110-127: the loop, with \<^verbatim>\<open>csa_scope['etl_scope']\<close> as accumulator.\<close>

fun copy_scripts ::
  "path \<Rightarrow> string \<Rightarrow> string \<Rightarrow> (path \<times> (error + string)) list \<Rightarrow> string list \<Rightarrow> fs
     \<Rightarrow> (error + string list) \<times> fs" where
  "copy_scripts grizzly_path dataset source [] etl_scope s = (Inr etl_scope, s)"
| "copy_scripts grizzly_path dataset source (f # fs) etl_scope s =
     (case copy_script grizzly_path dataset source f s of
        (Inl e, s1) \<Rightarrow> (Inl e, s1)
      | (Inr name, s1) \<Rightarrow>
          copy_scripts grizzly_path dataset source fs (etl_scope @ [name]) s1)"

text \<open>Lines 99-103 and 129: the scope manifest with the accumulated \<^verbatim>\<open>etl_scope\<close>.\<close>

definition csa_scope :: "string \<Rightarrow> string list \<Rightarrow> py_dict" where
  "csa_scope interval etl_scope =
     [(''schedule_interval'', YStr interval),
      (''execution_timeout_per_table'', YInt 1200),
      (''etl_scope'', YList (map YStr etl_scope))]"

definition shell_cmd :: "string \<Rightarrow> string list" where
  "shell_cmd temp_dir =
     [''gh'', ''repo'', ''clone'', ''GoogleCloudPlatform/security-analytics'', temp_dir]"

definition grizzly_path :: "args \<Rightarrow> path" where
  "grizzly_path a = joinpath (parts (grizzly_repo_path a)) (domain_name a)"

definition scope_file :: "args \<Rightarrow> path" where
  "scope_file a = joinpath (grizzly_path a) ''SCOPE.yml''"

text \<open>
  Lines 88-131. The result is the exception that ended the run, if any, and the file
  system as the run left it.
\<close>

definition main :: "args \<Rightarrow> env \<Rightarrow> fs \<Rightarrow> (error + unit) \<times> fs" where
  "main a w s =
     (case dataset_name (domain_name a) of
        Inl e \<Rightarrow> (Inl e, s)
      | Inr dataset \<Rightarrow>
          (case run_command (subprocess_run w) (shell_cmd (TEMP_DIR w)) of
             Inl e \<Rightarrow> (Inl e, s)
           | Inr cmd_result \<Rightarrow>
               (case reset_domain (grizzly_path a) s of
                  (Inl e, s1) \<Rightarrow> (Inl e, s1)
                | (Inr _, s1) \<Rightarrow>
                    (case copy_scripts (grizzly_path a) dataset (source_dataset a)
                            (glob_sql (TEMP_DIR w) (sql_tree w)) [] s1 of
                       (Inl e, s2) \<Rightarrow> (Inl e, s2)
                     | (Inr etl_scope, s2) \<Rightarrow>
                         write_text (scope_file a)
                           (Yaml (csa_scope (schedule_interval a) etl_scope)) s2))))"

section \<open>The scenario of the specification\<close>

text \<open>
  One source file \<^verbatim>\<open>csa_failed_logins.sql\<close>, the domain \<^verbatim>\<open>team/bas_csa\<close> and the dataset
  \<^verbatim>\<open>proj.ds\<close>; the clone succeeds, and the target repository \<^verbatim>\<open>grizzly\<close> holds the
  directory \<^verbatim>\<open>team\<close>.
\<close>

definition scenario_args :: args where
  "scenario_args =
     \<lparr>grizzly_repo_path = ''grizzly'', domain_name = ''team/bas_csa'',
      source_dataset = ''proj.ds'', schedule_interval = ''@daily''\<rparr>"

definition scenario_env :: env where
  "scenario_env =
     \<lparr>TEMP_DIR = ''/tmp/csa.x'',
      subprocess_run = (\<lambda>_. Inr \<lparr>returncode = 0, stdout = [], stderr = []\<rparr>),
      sql_tree =
        [(''csa_failed_logins.sql'',
          Inr ''SELECT * FROM [MY_PROJECT_ID].[MY_DATASET_ID].events'')]\<rparr>"

definition scenario_fs :: fs where
  "scenario_fs = [[] \<mapsto> Dir, [''grizzly''] \<mapsto> Dir, [''grizzly'', ''team''] \<mapsto> Dir]"

text \<open>
  Two more inputs: a clone in which two scripts get the same derived name (and one entry
  is no SQL file), and a target repository where the domain directory exists and holds
  files of an earlier run.
\<close>

definition clash_env :: env where
  "clash_env =
     \<lparr>TEMP_DIR = ''/tmp/csa.x'',
      subprocess_run = (\<lambda>_. Inr \<lparr>returncode = 0, stdout = [], stderr = []\<rparr>),
      sql_tree =
        [(''1_01_logins.sql'', Inr ''SELECT 1''),
         (''README.md'', Inr ''notes''),
         (''sub/2_07_Logins.sql'', Inr ''SELECT 2'')]\<rparr>"

definition stale_fs :: fs where
  "stale_fs =
     scenario_fs
       ([''grizzly'', ''team'', ''bas_csa''] \<mapsto> Dir,
        [''grizzly'', ''team'', ''bas_csa'', ''old.yml''] \<mapsto> File (Text ''stale''),
        [''grizzly'', ''team'', ''bas_csa'', ''queries''] \<mapsto> Dir,
        [''grizzly'', ''team'', ''bas_csa'', ''queries'', ''old.sql''] \<mapsto> File (Text ''stale''))"

section \<open>Case folding and splitting\<close>

lemma lower_char_slash: "lower_char c = CHR ''/'' \<longleftrightarrow> c = CHR ''/''"
  by (simp add: lower_char_def)


lemma lower_append: "lower (a @ b) = lower a @ lower b"
  by (simp add: lower_def)

lemma lower_sep: "lower (a @ c # b) = lower a @ lower_char c # lower b"
  by (simp add: lower_def)

lemma slash_in_lower: "CHR ''/'' \<in> set (lower s) \<longleftrightarrow> CHR ''/'' \<in> set s"
  by (induction s) (auto simp: lower_def lower_char_slash eq_commute [of "CHR ''/''"])


lemma split_not_Nil: "split c s \<noteq> []"
  by (induction s) (auto split: list.splits)

lemma split_no_sep: "c \<notin> set s \<Longrightarrow> split c s = [s]"
  by (induction s) auto



lemma split_max_not_Nil: "split_max c n s \<noteq> []"
  by (cases n) (auto split: list.splits)




lemma py_last_split_max: "py_last (split_max c n s) = Inr (last (split_max c n s))"
  using split_max_not_Nil [of c n s] by (cases "split_max c n s") (auto simp: py_last_def)

lemma py_last_split: "py_last (split c s) = Inr (last (split c s))"
  using split_not_Nil [of c s] by (cases "split c s") (auto simp: py_last_def)





section \<open>Replacing the placeholder\<close>

declare replace.simps [simp del]

lemma replace_Nil: "old \<noteq> [] \<Longrightarrow> replace old new [] = []"
  by (subst replace.simps) simp

lemma replace_match:
  "old \<noteq> [] \<Longrightarrow> replace old new (old @ s) = new @ replace old new s"
  by (subst replace.simps) simp

lemma replace_skip:
  "old \<noteq> [] \<Longrightarrow> \<not> prefix old (c # cs) \<Longrightarrow> replace old new (c # cs) = c # replace old new cs"
  by (subst replace.simps) simp

lemma replace_no_occurrence:
  assumes "old \<noteq> []"
  shows "\<not> sublist old u \<Longrightarrow> replace old new u = u"
proof (induction u)
  case Nil
  show ?case using assms by (simp add: replace_Nil)
next
  case (Cons c u)
  have "\<not> prefix old (c # u)"
    using Cons.prems by (auto dest: prefix_imp_sublist)
  moreover have "\<not> sublist old u"
    using Cons.prems by (auto simp: sublist_Cons_right)
  ultimately show ?case
    using assms Cons.IH by (simp add: replace_skip)
qed

lemma no_overlap:
  assumes nb: "no_border p" and u: "u \<noteq> []" and free: "\<not> sublist p u"
  shows "\<not> prefix p (u @ p @ r)"
proof
  assume pre: "prefix p (u @ p @ r)"
  show False
  proof (cases "length p \<le> length u")
    case True
    with pre have "prefix p u"
      by (auto intro: prefix_length_prefix [of p "u @ p @ r" u])
    with free show False by (auto dest: prefix_imp_sublist)
  next
    case False
    define k where "k = length p - length u"
    from u have "0 < length u" by simp
    with False have "1 \<le> k \<and> k < length p" unfolding k_def by arith
    then have k: "k \<in> {1..<length p}" by simp
    from pre obtain zs where zs: "u @ p @ r = p @ zs"
      by (auto simp: prefix_def)
    have "p = take (length p) (p @ zs)" by simp
    also have "\<dots> = take (length p) (u @ p @ r)" by (simp only: zs)
    also have "\<dots> = u @ take k p"
      using False by (simp add: k_def)
    finally have eq: "p = u @ take k p" .
    then have "drop (length u) p = take k p"
      by (metis append_eq_conv_conj)
    moreover have "length p - k = length u"
      using False by (simp add: k_def)
    ultimately have "take k p = drop (length p - k) p" by simp
    with nb k show False by (auto simp: no_border_def)
  qed
qed

lemma replace_segment:
  assumes "old \<noteq> []" and "no_border old"
  shows "\<not> sublist old u \<Longrightarrow> replace old new (u @ old @ r) = u @ new @ replace old new r"
proof (induction u)
  case Nil
  show ?case using assms(1) by (simp add: replace_match)
next
  case (Cons c u)
  have "\<not> prefix old ((c # u) @ old @ r)"
    using assms(2) Cons.prems by (intro no_overlap) auto
  moreover have "\<not> sublist old u"
    using Cons.prems by (auto simp: sublist_Cons_right)
  ultimately show ?case
    using assms(1) Cons.IH by (simp add: replace_skip)
qed

lemma replace_join:
  assumes "old \<noteq> []" and "no_border old"
  shows "\<forall>u\<in>set us. \<not> sublist old u \<Longrightarrow> replace old new (join old us) = join new us"
proof (induction us rule: induct_list012)
  case 1
  show ?case using assms(1) by (simp add: replace_Nil)
next
  case (2 x)
  then show ?case using assms(1) by (simp add: replace_no_occurrence)
next
  case (3 x y ys)
  then show ?case using assms by (simp add: replace_segment)
qed

lemma join_append:
  "us \<noteq> [] \<Longrightarrow> vs \<noteq> [] \<Longrightarrow> join sep (us @ vs) = join sep us @ sep @ join sep vs"
proof (induction us rule: induct_list012)
  case 1
  then show ?case by simp
next
  case (2 x)
  then show ?case by (cases vs) auto
next
  case (3 x y ys)
  then show ?case by simp
qed

lemma segments_exist:
  assumes "p \<noteq> []"
  shows "\<exists>us. us \<noteq> [] \<and> (\<forall>u\<in>set us. \<not> sublist p u) \<and> body = join p us"
proof (induction body rule: length_induct)
  case (1 body)
  show ?case
  proof (cases "sublist p body")
    case False
    then have "[body] \<noteq> [] \<and> (\<forall>u\<in>set [body]. \<not> sublist p u) \<and> body = join p [body]"
      by simp
    then show ?thesis by blast
  next
    case True
    then obtain a b where body: "body = a @ p @ b"
      by (auto simp: sublist_def)
    with assms have "length a < length body" "length b < length body"
      by auto
    with 1 obtain us vs where
      us: "us \<noteq> []" "\<forall>u\<in>set us. \<not> sublist p u" "a = join p us" and
      vs: "vs \<noteq> []" "\<forall>u\<in>set vs. \<not> sublist p u" "b = join p vs"
      by metis
    then have "us @ vs \<noteq> [] \<and> (\<forall>u\<in>set (us @ vs). \<not> sublist p u) \<and> body = join p (us @ vs)"
      using body by (auto simp: join_append)
    then show ?thesis by blast
  qed
qed

lemma PLACEHOLDER_not_Nil: "PLACEHOLDER \<noteq> []"
  by (simp add: PLACEHOLDER_def)

lemma PLACEHOLDER_no_border: "no_border PLACEHOLDER"
  unfolding no_border_def PLACEHOLDER_def by code_simp

text \<open>
  C3: cut an SQL body at the occurrences of the placeholder, into pieces \<open>vs\<close> that
  hold no occurrence: the transformed text is the same pieces joined by
  \<^verbatim>\<open>source_dataset\<close>. Every body can be cut so, every such cut gives the same
  text, and a body with no occurrence is returned as it is. Occurrences are compared
  character by character, so case matters.
\<close>

theorem placeholder_replaced_everywhere:
  "((\<forall>u\<in>set us. \<not> sublist PLACEHOLDER u) \<longrightarrow>
      sql_file_data source (join PLACEHOLDER us) = join source us) \<and>
   (\<exists>vs. vs \<noteq> [] \<and> (\<forall>v\<in>set vs. \<not> sublist PLACEHOLDER v) \<and> body = join PLACEHOLDER vs \<and>
      sql_file_data source body = join source vs) \<and>
   (\<not> sublist PLACEHOLDER body \<longrightarrow> sql_file_data source body = body)"
proof (intro conjI impI)
  assume "\<forall>u\<in>set us. \<not> sublist PLACEHOLDER u"
  then show "sql_file_data source (join PLACEHOLDER us) = join source us"
    unfolding sql_file_data_def
    by (rule replace_join [OF PLACEHOLDER_not_Nil PLACEHOLDER_no_border])
next
  obtain vs where vs: "vs \<noteq> []" "\<forall>v\<in>set vs. \<not> sublist PLACEHOLDER v" "body = join PLACEHOLDER vs"
    using segments_exist [OF PLACEHOLDER_not_Nil] by blast
  then have "sql_file_data source body = join source vs"
    unfolding sql_file_data_def
    using replace_join [OF PLACEHOLDER_not_Nil PLACEHOLDER_no_border] by blast
  with vs show "\<exists>vs. vs \<noteq> [] \<and> (\<forall>v\<in>set vs. \<not> sublist PLACEHOLDER v) \<and>
      body = join PLACEHOLDER vs \<and> sql_file_data source body = join source vs"
    by blast
next
  assume "\<not> sublist PLACEHOLDER body"
  then show "sql_file_data source body = body"
    unfolding sql_file_data_def by (rule replace_no_occurrence [OF PLACEHOLDER_not_Nil])
qed

theorem placeholder_replaced_everywhere_witness:
  "sql_file_data ''proj.ds''
     ''SELECT * FROM [MY_PROJECT_ID].[MY_DATASET_ID].a, [MY_PROJECT_ID].[MY_DATASET_ID].b''
     = ''SELECT * FROM proj.ds.a, proj.ds.b'' \<and>
   sql_file_data ''proj.ds'' ''SELECT 1 FROM [my_project_id].[my_dataset_id].a''
     = ''SELECT 1 FROM [my_project_id].[my_dataset_id].a''"
proof -
  have free: "\<forall>u\<in>set [''SELECT * FROM '', ''.a, '', ''.b'']. \<not> sublist PLACEHOLDER u"
    by code_simp
  have none: "\<not> sublist PLACEHOLDER ''SELECT 1 FROM [my_project_id].[my_dataset_id].a''"
    by code_simp
  show ?thesis
    using free none
      placeholder_replaced_everywhere [of "[''SELECT * FROM '', ''.a, '', ''.b'']" "''proj.ds''"
        "''SELECT 1 FROM [my_project_id].[my_dataset_id].a''"]
    by (simp add: PLACEHOLDER_def)
qed

section \<open>Running the clone command\<close>

text \<open>
  C7, amended: when the process was started, \<^verbatim>\<open>run_command\<close> raises exactly when the exit
  code is not zero or the captured standard output is not valid UTF-8. On a non-zero
  exit with a decodable standard error the exception carries that text, between the
  colour codes; on a zero exit the result is the decoding of the standard output.
\<close>

theorem run_command_outcome:
  assumes "run arguments = Inr r"
  shows "((\<exists>e. run_command run arguments = Inl e) \<longleftrightarrow>
            returncode r \<noteq> 0 \<or> decode_utf8 (stdout r) = Inl UnicodeDecodeError) \<and>
         (returncode r \<noteq> 0 \<and> decode_utf8 (stderr r) = Inr msg \<longrightarrow>
            run_command run arguments = Inl (Exception (RED @ msg @ RESET))) \<and>
         (returncode r = 0 \<longrightarrow> run_command run arguments = decode_utf8 (stdout r))"
  using assms by (auto simp: run_command_def decode_utf8_def split: sum.splits)

theorem run_command_outcome_witness:
  "run_command (\<lambda>_. Inr \<lparr>returncode = 1, stdout = [], stderr = ''denied''\<rparr>) [''gh'']
     = Inl (Exception (RED @ ''denied'' @ RESET)) \<and>
   run_command (\<lambda>_. Inr \<lparr>returncode = 0, stdout = ''ok'', stderr = []\<rparr>) [''gh''] = Inr ''ok''"
proof -
  have d: "decode_utf8 ''denied'' = Inr ''denied''" "decode_utf8 ''ok'' = Inr ''ok''"
    by (simp_all add: decode_utf8_def utf8_len_def)
  show ?thesis
    using run_command_outcome [of "\<lambda>_. Inr \<lparr>returncode = 1, stdout = [], stderr = ''denied''\<rparr>"
        "[''gh'']" "\<lparr>returncode = 1, stdout = [], stderr = ''denied''\<rparr>" "''denied''"]
      run_command_outcome [of "\<lambda>_. Inr \<lparr>returncode = 0, stdout = ''ok'', stderr = []\<rparr>"
        "[''gh'']" "\<lparr>returncode = 0, stdout = ''ok'', stderr = []\<rparr>" "[]"]
    by (simp add: d)
qed

text \<open>
  C7 as stated fails: a process that exits with code 0 and prints the byte \<^verbatim>\<open>0xFF\<close>
  makes \<^verbatim>\<open>run_command\<close> raise.
\<close>

theorem run_command_undecodable_counterexample:
  "run_command (\<lambda>_. Inr \<lparr>returncode = 0, stdout = [CHR 0xFF], stderr = []\<rparr>) [''gh'']
     = Inl UnicodeDecodeError"
  by (simp add: run_command_def decode_utf8_def utf8_len_def)

section \<open>A failed clone\<close>


text \<open>
  C10: whenever \<^verbatim>\<open>run_command\<close> raises, and so whenever the clone exits with a non-zero
  code, \<^verbatim>\<open>main\<close> ends with an exception and the file system is the one it started from.
\<close>

theorem failed_clone_leaves_fs:
  "(run_command (subprocess_run w) (shell_cmd (TEMP_DIR w)) = Inl e \<longrightarrow>
      main a w s = (Inl e, s)) \<and>
   (subprocess_run w (shell_cmd (TEMP_DIR w)) = Inr r \<and> returncode r \<noteq> 0 \<longrightarrow>
      (\<exists>e'. main a w s = (Inl e', s)))"
proof (intro conjI impI)
  assume "run_command (subprocess_run w) (shell_cmd (TEMP_DIR w)) = Inl e"
  then show "main a w s = (Inl e, s)"
    by (simp add: main_def dataset_name_def py_last_split)
next
  assume "subprocess_run w (shell_cmd (TEMP_DIR w)) = Inr r \<and> returncode r \<noteq> 0"
  then have "\<exists>e'. run_command (subprocess_run w) (shell_cmd (TEMP_DIR w)) = Inl e'"
    by (auto simp: run_command_def split: sum.splits)
  then show "\<exists>e'. main a w s = (Inl e', s)"
    by (auto simp: main_def dataset_name_def py_last_split)
qed

theorem failed_clone_leaves_fs_witness:
  "main scenario_args (scenario_env\<lparr>subprocess_run := (\<lambda>_. Inr \<lparr>returncode = 1, stdout = [], stderr = ''denied''\<rparr>)\<rparr>) scenario_fs
     = (Inl (Exception (RED @ ''denied'' @ RESET)), scenario_fs)"
proof -
  have "run_command (\<lambda>_. Inr \<lparr>returncode = 1, stdout = [], stderr = ''denied''\<rparr>) (shell_cmd (TEMP_DIR scenario_env))
     = Inl (Exception (RED @ ''denied'' @ RESET))"
    by (simp add: run_command_def decode_utf8_def utf8_len_def)
  then show ?thesis
    using failed_clone_leaves_fs [of "scenario_env\<lparr>subprocess_run := (\<lambda>_. Inr \<lparr>returncode = 1, stdout = [], stderr = ''denied''\<rparr>)\<rparr>"
       "Exception (RED @ ''denied'' @ RESET)" scenario_args scenario_fs]
    by simp
qed

section \<open>The scenario of the specification\<close>

text \<open>
  C2, amended: for the file \<^verbatim>\<open>csa_failed_logins.sql\<close> the run gives the dataset name
  \<^verbatim>\<open>bas_csa\<close>, the derived name \<^verbatim>\<open>bas_csa.logins\<close> (the tokens \<^verbatim>\<open>csa\<close> and \<^verbatim>\<open>failed\<close> are
  dropped), the SQL text with the dataset put in, and the descriptor of that name.
\<close>

theorem scenario_run:
  "dataset_name (domain_name scenario_args) = Inr ''bas_csa'' \<and>
   csa_file_name ''bas_csa'' (stem [''csa_failed_logins.sql'']) = Inr ''bas_csa.logins'' \<and>
   fst (main scenario_args scenario_env scenario_fs) = Inr () \<and>
   snd (main scenario_args scenario_env scenario_fs)
       [''grizzly'', ''team'', ''bas_csa'', ''queries'', ''bas_csa.logins.sql'']
     = Some (File (Text ''SELECT * FROM proj.ds.events'')) \<and>
   snd (main scenario_args scenario_env scenario_fs)
       [''grizzly'', ''team'', ''bas_csa'', ''bas_csa.logins.yml'']
     = Some (File (Yaml [(''target_table_name'', YStr ''bas_csa.logins''),
                         (''job_write_mode'', YStr ''WRITE_TRUNCATE''),
                         (''stage_loading_query'', YStr ''queries/bas_csa.logins.sql'')])) \<and>
   snd (main scenario_args scenario_env scenario_fs)
       [''grizzly'', ''team'', ''bas_csa'', ''SCOPE.yml'']
     = Some (File (Yaml [(''schedule_interval'', YStr ''@daily''),
                         (''execution_timeout_per_table'', YInt 1200),
                         (''etl_scope'', YList [YStr ''bas_csa.logins''])]))"
proof (intro conjI)
  show "dataset_name (domain_name scenario_args) = Inr ''bas_csa''"
    by code_simp
  show "csa_file_name ''bas_csa'' (stem [''csa_failed_logins.sql'']) = Inr ''bas_csa.logins''"
    by code_simp
  show "fst (main scenario_args scenario_env scenario_fs) = Inr ()"
    by code_simp
  show "snd (main scenario_args scenario_env scenario_fs)
       [''grizzly'', ''team'', ''bas_csa'', ''queries'', ''bas_csa.logins.sql'']
     = Some (File (Text ''SELECT * FROM proj.ds.events''))"
    by code_simp
  show "snd (main scenario_args scenario_env scenario_fs)
       [''grizzly'', ''team'', ''bas_csa'', ''bas_csa.logins.yml'']
     = Some (File (Yaml [(''target_table_name'', YStr ''bas_csa.logins''),
                         (''job_write_mode'', YStr ''WRITE_TRUNCATE''),
                         (''stage_loading_query'', YStr ''queries/bas_csa.logins.sql'')]))"
    by code_simp
  show "snd (main scenario_args scenario_env scenario_fs)
       [''grizzly'', ''team'', ''bas_csa'', ''SCOPE.yml'']
     = Some (File (Yaml [(''schedule_interval'', YStr ''@daily''),
                         (''execution_timeout_per_table'', YInt 1200),
                         (''etl_scope'', YList [YStr ''bas_csa.logins''])]))"
    by code_simp
qed

text \<open>
  C2 as stated fails: the derived name is not \<^verbatim>\<open>bas_csa.failed_logins\<close>, and the run
  writes no descriptor and no SQL file of that name.
\<close>

theorem scenario_counterexample:
  "csa_file_name ''bas_csa'' (stem [''csa_failed_logins.sql'']) \<noteq> Inr ''bas_csa.failed_logins'' \<and>
   snd (main scenario_args scenario_env scenario_fs)
       [''grizzly'', ''team'', ''bas_csa'', ''bas_csa.failed_logins.yml''] = None \<and>
   snd (main scenario_args scenario_env scenario_fs)
       [''grizzly'', ''team'', ''bas_csa'', ''queries'', ''bas_csa.failed_logins.sql''] = None"
proof (intro conjI)
  show "csa_file_name ''bas_csa'' (stem [''csa_failed_logins.sql'']) \<noteq> Inr ''bas_csa.failed_logins''"
    by code_simp
  show "snd (main scenario_args scenario_env scenario_fs)
       [''grizzly'', ''team'', ''bas_csa'', ''bas_csa.failed_logins.yml''] = None"
    by code_simp
  show "snd (main scenario_args scenario_env scenario_fs)
       [''grizzly'', ''team'', ''bas_csa'', ''queries'', ''bas_csa.failed_logins.sql''] = None"
    by code_simp
qed

section \<open>Names and paths\<close>

lemma split_tokens_no_sep: "t \<in> set (split c s) \<Longrightarrow> c \<notin> set t"
proof (induction s arbitrary: t)
  case Nil
  then show ?case by simp
next
  case (Cons x s)
  obtain u us where us: "split c s = u # us"
    using split_not_Nil [of c s] by (cases "split c s") auto
  with Cons show ?case
    by (cases "x = c") auto
qed

lemma split_max_tokens_subset: "t \<in> set (split_max c n s) \<Longrightarrow> set t \<subseteq> set s"
proof (induction n arbitrary: s)
  case 0
  then show ?case by simp
next
  case (Suc n)
  show ?case
  proof (cases "dropWhile (\<lambda>x. x \<noteq> c) s")
    case Nil
    with Suc.prems show ?thesis by simp
  next
    case (Cons y rest)
    then have "set rest \<subseteq> set s"
      by (metis set_dropWhileD set_subset_Cons subsetI subset_iff)
    moreover have "set (takeWhile (\<lambda>x. x \<noteq> c) s) \<subseteq> set s"
      by (auto dest: set_takeWhileD)
    ultimately show ?thesis
      using Suc.prems Suc.IH [of rest] Cons by auto
  qed
qed

lemma dataset_name_no_slash: "dataset_name d = Inr ds \<Longrightarrow> CHR ''/'' \<notin> set ds"
  using split_tokens_no_sep [of ds "CHR ''/''" "lower d"] split_not_Nil [of "CHR ''/''" "lower d"]
  by (auto simp: dataset_name_def py_last_split)

lemma csa_file_name_form:
  assumes "csa_file_name ds st = Inr n"
  shows "\<exists>t. n = ds @ ''.'' @ t \<and> set t \<subseteq> set (lower st)"
proof -
  let ?t = "last (split_max CHR ''_'' 2 (lower st))"
  have "?t \<in> set (split_max CHR ''_'' 2 (lower st))"
    using split_max_not_Nil by simp
  then have "set ?t \<subseteq> set (lower st)"
    by (rule split_max_tokens_subset)
  moreover have "n = ds @ ''.'' @ ?t"
    using assms by (simp add: csa_file_name_def py_last_split_max)
  ultimately show ?thesis by blast
qed

lemma csa_file_name_plain:
  assumes "csa_file_name ds st = Inr n" and "CHR ''/'' \<notin> set ds" and "CHR ''/'' \<notin> set st"
  shows "CHR ''/'' \<notin> set n" and "CHR ''.'' \<in> set n"
  using csa_file_name_form [OF assms(1)] assms(2,3) slash_in_lower [of st] by auto

lemma parts_plain:
  assumes "CHR ''/'' \<notin> set n" and "n \<noteq> []" and "n \<noteq> ''.''"
  shows "parts n = [n]"
proof -
  have "\<not> is_absolute n"
    using assms(1) by (cases n) (auto simp: is_absolute_def)
  then show ?thesis
    using assms by (simp add: parts_def split_no_sep)
qed

lemma joinpath_plain:
  assumes "CHR ''/'' \<notin> set n" and "n \<noteq> []" and "n \<noteq> ''.''"
  shows "joinpath p n = p @ [n]"
proof -
  have "\<not> is_absolute n"
    using assms(1) by (cases n) (auto simp: is_absolute_def)
  then show ?thesis
    using assms by (simp add: joinpath_def parts_plain)
qed

lemma joinpath_suffixed:
  assumes "CHR ''/'' \<notin> set n" and "ext \<noteq> []" and "ext \<noteq> ''.''" and "CHR ''/'' \<notin> set ext"
    and "length ext > 1"
  shows "joinpath p (n @ ext) = p @ [n @ ext]"
  using assms by (intro joinpath_plain) (auto simp: append_eq_Cons_conv)

lemma filtered_split_no_slash:
  "c \<in> set (filter (\<lambda>c. c \<noteq> [] \<and> c \<noteq> ''.'') (split CHR ''/'' s)) \<Longrightarrow> CHR ''/'' \<notin> set c"
  by (auto dest: split_tokens_no_sep)

lemma path_name_rooted:
  assumes "\<forall>c\<in>set F. CHR ''/'' \<notin> set c"
  shows "CHR ''/'' \<notin> set (path_name (''/'' # F))"
proof (cases "F = []")
  case True
  then show ?thesis by (simp add: path_name_def)
next
  case False
  then have "last F \<in> set F" by simp
  with assms False show ?thesis by (auto simp: path_name_def)
qed

lemma path_name_extended:
  assumes "\<forall>c\<in>set F. CHR ''/'' \<notin> set c" and "CHR ''/'' \<notin> set (path_name p)"
  shows "CHR ''/'' \<notin> set (path_name (p @ F))"
proof (cases "F = []")
  case True
  with assms(2) show ?thesis by simp
next
  case False
  then have l: "last F \<in> set F" by simp
  have "p @ F \<noteq> [''/'']"
  proof
    assume "p @ F = [''/'']"
    with False have "F = [''/'']"
      by (cases p) auto
    with assms(1) show False by simp
  qed
  with assms(1) False l show ?thesis by (auto simp: path_name_def)
qed

lemma path_name_parts_no_slash: "CHR ''/'' \<notin> set (path_name (parts s))"
proof (cases "is_absolute s")
  case True
  then show ?thesis
    using path_name_rooted [of "filter (\<lambda>c. c \<noteq> [] \<and> c \<noteq> ''.'') (split CHR ''/'' s)"]
      filtered_split_no_slash [of _ s]
    by (auto simp: parts_def)
next
  case False
  then show ?thesis
    using path_name_extended [of "filter (\<lambda>c. c \<noteq> [] \<and> c \<noteq> ''.'') (split CHR ''/'' s)" "[]"]
      filtered_split_no_slash [of _ s]
    by (auto simp: parts_def path_name_def)
qed

lemma path_name_joinpath_no_slash:
  assumes "CHR ''/'' \<notin> set (path_name p)"
  shows "CHR ''/'' \<notin> set (path_name (joinpath p s))"
proof (cases "is_absolute s")
  case True
  then show ?thesis by (simp add: joinpath_def path_name_parts_no_slash)
next
  case False
  then have "parts s = filter (\<lambda>c. c \<noteq> [] \<and> c \<noteq> ''.'') (split CHR ''/'' s)"
    by (simp add: parts_def)
  then have "\<forall>c\<in>set (parts s). CHR ''/'' \<notin> set c"
    using filtered_split_no_slash [of _ s] by auto
  with assms False show ?thesis
    by (simp add: joinpath_def path_name_extended)
qed

lemma stem_no_slash: "CHR ''/'' \<notin> set (path_name p) \<Longrightarrow> CHR ''/'' \<notin> set (stem p)"
  by (auto simp: stem_def Let_def split: option.splits dest: in_set_takeD)

lemma glob_sql_stem_no_slash:
  assumes "f \<in> set (glob_sql temp_dir tree)"
  shows "CHR ''/'' \<notin> set (stem (fst f))"
proof -
  from assms obtain rel where "fst f = joinpath (sql_dir temp_dir) rel"
    by (auto simp: glob_sql_def)
  moreover have "CHR ''/'' \<notin> set (path_name (sql_dir temp_dir))"
    unfolding sql_dir_def
    by (intro path_name_joinpath_no_slash path_name_parts_no_slash)
  ultimately show ?thesis
    by (simp add: stem_no_slash path_name_joinpath_no_slash)
qed

lemma rfind_suffixed:
  assumes "CHR ''.'' \<notin> set ext"
  shows "rfind CHR ''.'' (n @ ''.'' @ ext) = Some (length n)"
proof -
  have "takeWhile (\<lambda>x. x \<noteq> CHR ''.'') (rev (n @ ''.'' @ ext)) = rev ext"
    using assms by (auto simp: takeWhile_append2 takeWhile_tail)
  then show ?thesis
    by (simp add: rfind_def)
qed

lemma stem_suffixed:
  assumes "n \<noteq> []" and "CHR ''.'' \<notin> set ext" and "ext \<noteq> []"
  shows "stem (p @ [n @ ''.'' @ ext]) = n"
proof -
  have "p @ [n @ ''.'' @ ext] \<noteq> [''/'']"
    using assms(1) by (cases p) (auto simp: append_eq_Cons_conv)
  then have "path_name (p @ [n @ ''.'' @ ext]) = n @ ''.'' @ ext"
    by (simp add: path_name_def)
  moreover have "0 < length n" "length n < length (n @ ''.'' @ ext) - 1"
    using assms by (cases ext, auto)
  ultimately show ?thesis
    using rfind_suffixed [OF assms(2), of n] by (simp add: stem_def)
qed

lemma relative_to_below: "relative_to (p @ q) p = Inr q"
  by (simp add: relative_to_def)


section \<open>File-system steps\<close>

lemma write_text_success:
  "write_text p c s = (Inr u, s') \<Longrightarrow> s' = s(p \<mapsto> File c)"
  by (auto simp: write_text_def split: option.splits node.splits)

lemma write_text_failure:
  "write_text p c s = (Inl e, s') \<Longrightarrow> s' = s"
  by (auto simp: write_text_def split: option.splits node.splits)

lemma path_str_queries: "path_str [''queries'', x] = ''queries/'' @ x"
  by (simp add: path_str_def)

lemma yml_file_data_below:
  "yml_file_data gp n (gp @ [''queries'', n @ ''.sql'']) =
     Inr [(''target_table_name'', YStr n),
          (''job_write_mode'', YStr ''WRITE_TRUNCATE''),
          (''stage_loading_query'', YStr (''queries/'' @ n @ ''.sql''))]"
  by (simp add: yml_file_data_def relative_to_below path_str_queries)

lemma copy_script_success:
  assumes ok: "copy_script gp ds src f s = (Inr n, s')"
    and ds: "CHR ''/'' \<notin> set ds" and st: "CHR ''/'' \<notin> set (stem (fst f))"
  shows "csa_file_name ds (stem (fst f)) = Inr n \<and>
         (\<exists>text. snd f = Inr text \<and>
            s' = s(gp @ [n @ ''.yml''] \<mapsto>
                     File (Yaml [(''target_table_name'', YStr n),
                                 (''job_write_mode'', YStr ''WRITE_TRUNCATE''),
                                 (''stage_loading_query'', YStr (''queries/'' @ n @ ''.sql''))]),
                   gp @ [''queries'', n @ ''.sql''] \<mapsto> File (Text (sql_file_data src text))))"
proof -
  from ok obtain m where m: "csa_file_name ds (stem (fst f)) = Inr m"
    by (cases "csa_file_name ds (stem (fst f))") (auto simp: copy_script_def)
  have plain: "CHR ''/'' \<notin> set m" "CHR ''.'' \<in> set m"
    using csa_file_name_plain [OF m ds st] by simp_all
  then have "m \<noteq> []" by auto
  have q: "joinpath gp ''queries'' = gp @ [''queries'']"
    by (simp add: joinpath_plain)
  have sql: "joinpath (gp @ [''queries'']) (m @ ''.sql'') = gp @ [''queries'', m @ ''.sql'']"
    using plain(1) by (simp add: joinpath_suffixed)
  have yml: "joinpath gp (m @ ''.yml'') = gp @ [m @ ''.yml'']"
    using plain(1) by (simp add: joinpath_suffixed)
  have st_yml: "stem (gp @ [m @ ''.yml'']) = m"
    using stem_suffixed [of m "''yml''" gp] \<open>m \<noteq> []\<close> by simp
  from ok obtain body where body: "snd f = Inr body"
    by (cases "snd f") (auto simp: copy_script_def m Let_def)
  show ?thesis
    using ok
    by (auto simp: copy_script_def m q sql yml body yml_file_data_below st_yml Let_def
        split: prod.splits sum.splits dest!: write_text_success)
qed


section \<open>The loop over the scripts\<close>

lemma copy_scripts_append:
  "copy_scripts gp ds src (es1 @ es2) acc s =
     (case copy_scripts gp ds src es1 acc s of
        (Inl e, s1) \<Rightarrow> (Inl e, s1)
      | (Inr acc1, s1) \<Rightarrow> copy_scripts gp ds src es2 acc1 s1)"
  by (induction es1 arbitrary: acc s) (auto split: prod.splits sum.splits)

lemma copy_scripts_names:
  assumes "copy_scripts gp ds src es acc s = (Inr etl, s')"
    and "CHR ''/'' \<notin> set ds" and "\<forall>f\<in>set es. CHR ''/'' \<notin> set (stem (fst f))"
  shows "\<exists>ns. etl = acc @ ns \<and> map (\<lambda>f. csa_file_name ds (stem (fst f))) es = map Inr ns"
  using assms
proof (induction es arbitrary: acc s)
  case Nil
  then show ?case by simp
next
  case (Cons f es)
  from Cons.prems(1) obtain n s1 where
    step: "copy_script gp ds src f s = (Inr n, s1)" and
    rest: "copy_scripts gp ds src es (acc @ [n]) s1 = (Inr etl, s')"
    by (auto split: prod.splits sum.splits)
  have n: "csa_file_name ds (stem (fst f)) = Inr n"
    using copy_script_success [OF step] Cons.prems(2,3) by simp
  from Cons.IH [OF rest] Cons.prems(2,3) obtain ns where
    "etl = (acc @ [n]) @ ns" "map (\<lambda>f. csa_file_name ds (stem (fst f))) es = map Inr ns"
    by auto
  with n have "etl = acc @ (n # ns) \<and>
      map (\<lambda>f. csa_file_name ds (stem (fst f))) (f # es) = map Inr (n # ns)"
    by simp
  then show ?case by blast
qed

lemma copy_scripts_frame:
  assumes "copy_scripts gp ds src es acc s = (Inr etl, s')"
    and "CHR ''/'' \<notin> set ds" and "\<forall>f\<in>set es. CHR ''/'' \<notin> set (stem (fst f))"
  shows "s' q = s q \<or>
         (\<exists>f\<in>set es. \<exists>n. csa_file_name ds (stem (fst f)) = Inr n \<and>
            (q = gp @ [n @ ''.yml''] \<or> q = gp @ [''queries'', n @ ''.sql'']))"
  using assms
proof (induction es arbitrary: acc s)
  case Nil
  then show ?case by simp
next
  case (Cons f es)
  from Cons.prems(1) obtain n s1 where
    step: "copy_script gp ds src f s = (Inr n, s1)" and
    rest: "copy_scripts gp ds src es (acc @ [n]) s1 = (Inr etl, s')"
    by (auto split: prod.splits sum.splits)
  from copy_script_success [OF step] Cons.prems(2,3) have
    n: "csa_file_name ds (stem (fst f)) = Inr n" and
    s1: "q \<noteq> gp @ [n @ ''.yml''] \<Longrightarrow> q \<noteq> gp @ [''queries'', n @ ''.sql''] \<Longrightarrow> s1 q = s q"
    by auto
  from Cons.IH [OF rest] Cons.prems(2,3) have
    "s' q = s1 q \<or>
     (\<exists>f\<in>set es. \<exists>n. csa_file_name ds (stem (fst f)) = Inr n \<and>
        (q = gp @ [n @ ''.yml''] \<or> q = gp @ [''queries'', n @ ''.sql'']))"
    by simp
  with n s1 show ?case by auto
qed

lemma copy_scripts_last_writer:
  assumes ok: "copy_scripts gp ds src (es1 @ f # es2) acc s = (Inr etl, s')"
    and ds: "CHR ''/'' \<notin> set ds"
    and st: "\<forall>g\<in>set (es1 @ f # es2). CHR ''/'' \<notin> set (stem (fst g))"
    and later: "\<forall>g\<in>set es2. csa_file_name ds (stem (fst g)) \<noteq> csa_file_name ds (stem (fst f))"
  shows "\<exists>n body. csa_file_name ds (stem (fst f)) = Inr n \<and> snd f = Inr body \<and>
           s' (gp @ [''queries'', n @ ''.sql'']) = Some (File (Text (sql_file_data src body))) \<and>
           s' (gp @ [n @ ''.yml'']) =
             Some (File (Yaml [(''target_table_name'', YStr n),
                               (''job_write_mode'', YStr ''WRITE_TRUNCATE''),
                               (''stage_loading_query'', YStr (''queries/'' @ n @ ''.sql''))]))"
proof -
  from ok obtain acc1 sa where
    "copy_scripts gp ds src (f # es2) acc1 sa = (Inr etl, s')"
    by (auto simp: copy_scripts_append split: prod.splits sum.splits)
  then obtain n sb where
    step: "copy_script gp ds src f sa = (Inr n, sb)" and
    rest: "copy_scripts gp ds src es2 (acc1 @ [n]) sb = (Inr etl, s')"
    by (auto split: prod.splits sum.splits)
  from copy_script_success [OF step ds] st obtain body where
    n: "csa_file_name ds (stem (fst f)) = Inr n" and body: "snd f = Inr body" and
    sb: "sb = sa(gp @ [n @ ''.yml''] \<mapsto>
                  File (Yaml [(''target_table_name'', YStr n),
                              (''job_write_mode'', YStr ''WRITE_TRUNCATE''),
                              (''stage_loading_query'', YStr (''queries/'' @ n @ ''.sql''))]),
                gp @ [''queries'', n @ ''.sql''] \<mapsto> File (Text (sql_file_data src body)))"
    by auto
  have st2: "\<forall>g\<in>set es2. CHR ''/'' \<notin> set (stem (fst g))"
    using st by simp
  have "s' (gp @ [''queries'', n @ ''.sql'']) = sb (gp @ [''queries'', n @ ''.sql''])"
    using copy_scripts_frame [OF rest ds st2, of "gp @ [''queries'', n @ ''.sql'']"] later n
    by auto
  moreover have "s' (gp @ [n @ ''.yml'']) = sb (gp @ [n @ ''.yml''])"
    using copy_scripts_frame [OF rest ds st2, of "gp @ [n @ ''.yml'']"] later n
    by auto
  ultimately show ?thesis
    using n body sb by simp
qed

section \<open>Resetting the domain directory\<close>

lemma parent_queries: "parent (gp @ [''queries'']) = gp"
  by (simp add: parent_def)

lemma not_prefix_butlast: "gp \<noteq> [] \<Longrightarrow> \<not> prefix gp (butlast gp)"
proof
  assume a: "gp \<noteq> []" and p: "prefix gp (butlast gp)"
  have le: "length gp \<le> length (butlast gp)"
    using p by (rule prefix_length_le)
  have "length (butlast gp) < length gp"
    using a by (cases gp rule: rev_cases) auto
  with le show False by arith
qed

lemma not_prefix_parent: "gp \<noteq> [] \<Longrightarrow> gp \<noteq> [''/''] \<Longrightarrow> \<not> prefix gp (parent gp)"
  by (simp add: parent_def not_prefix_butlast)

lemma reset_domain_existing:
  assumes "s gp = Some Dir" and "gp \<noteq> []" and "gp \<noteq> [''/'']" and "s (parent gp) = Some Dir"
  shows "reset_domain gp s =
     (Inr (), \<lambda>q. if prefix gp q then (if q = gp \<or> q = gp @ [''queries''] then Some Dir else None)
                   else s q)"
proof -
  let ?s0 = "\<lambda>q. if prefix gp q then None else s q"
  have rm: "rmtree gp s = (Inr (), ?s0)"
    using assms(1) by (simp add: rmtree_def)
  have "?s0 (parent gp) = Some Dir"
    using assms(2-4) by (simp add: not_prefix_parent)
  then have mk: "mkdir_exist_ok gp ?s0 = (Inr (), ?s0(gp \<mapsto> Dir))"
    by (simp add: mkdir_exist_ok_def)
  have mq: "mkdir_exist_ok (gp @ [''queries'']) (?s0(gp \<mapsto> Dir)) =
      (Inr (), ?s0(gp \<mapsto> Dir, gp @ [''queries''] \<mapsto> Dir))"
    by (simp add: mkdir_exist_ok_def parent_queries)
  have "?s0(gp \<mapsto> Dir, gp @ [''queries''] \<mapsto> Dir) =
      (\<lambda>q. if prefix gp q then (if q = gp \<or> q = gp @ [''queries''] then Some Dir else None)
            else s q)"
    by (rule ext) auto
  with rm mk mq show ?thesis
    using assms(1) by (simp add: reset_domain_def joinpath_plain)
qed

lemma reset_domain_missing:
  assumes "s gp = None" and "\<forall>q. prefix gp q \<longrightarrow> s q = None" and "s (parent gp) = Some Dir"
  shows "reset_domain gp s = (Inr (), s(gp \<mapsto> Dir, gp @ [''queries''] \<mapsto> Dir))"
proof -
  have mk: "mkdir_exist_ok gp s = (Inr (), s(gp \<mapsto> Dir))"
    using assms(1,3) by (simp add: mkdir_exist_ok_def)
  have "s (gp @ [''queries'']) = None"
    using assms(2) by simp
  then have "mkdir_exist_ok (gp @ [''queries'']) (s(gp \<mapsto> Dir)) =
      (Inr (), s(gp \<mapsto> Dir, gp @ [''queries''] \<mapsto> Dir))"
    by (simp add: mkdir_exist_ok_def parent_queries)
  with mk show ?thesis
    using assms(1) by (simp add: reset_domain_def joinpath_plain)
qed

lemma reset_domain_success:
  assumes ok: "reset_domain gp s = (Inr u, s1)"
    and tree: "s gp = None \<longrightarrow> (\<forall>q. prefix gp q \<longrightarrow> s q = None)"
  shows "s1 = (\<lambda>q. if prefix gp q then (if q = gp \<or> q = gp @ [''queries''] then Some Dir else None)
                   else s q)"
    and "gp \<noteq> []" and "gp \<noteq> [''/'']" and "s (parent gp) = Some Dir"
proof -
  have par: "s (parent gp) = Some Dir \<and> gp \<noteq> [] \<and> gp \<noteq> [''/'']"
  proof (cases "s gp")
    case None
    with ok have "s (parent gp) = Some Dir"
      by (auto simp: reset_domain_def mkdir_exist_ok_def split: option.splits node.splits)
    with None show ?thesis by (auto simp: parent_def)
  next
    case (Some nd)
    with ok have dir: "s gp = Some Dir"
      by (cases nd) (auto simp: reset_domain_def rmtree_def)
    with ok have "(\<lambda>q. if prefix gp q then None else s q) (parent gp) = Some Dir"
      by (auto simp: reset_domain_def rmtree_def mkdir_exist_ok_def
          split: option.splits node.splits if_splits)
    then have "\<not> prefix gp (parent gp) \<and> s (parent gp) = Some Dir"
      by (auto split: if_splits)
    then show ?thesis by (auto simp: parent_def)
  qed
  then show "gp \<noteq> []" and "gp \<noteq> [''/'']" and "s (parent gp) = Some Dir"
    by simp_all
  show "s1 = (\<lambda>q. if prefix gp q then (if q = gp \<or> q = gp @ [''queries''] then Some Dir else None)
                   else s q)"
  proof (cases "s gp")
    case None
    with tree par have "reset_domain gp s = (Inr (), s(gp \<mapsto> Dir, gp @ [''queries''] \<mapsto> Dir))"
      by (intro reset_domain_missing) auto
    with ok have "s1 = s(gp \<mapsto> Dir, gp @ [''queries''] \<mapsto> Dir)" by simp
    also have "\<dots> = (\<lambda>q. if prefix gp q then (if q = gp \<or> q = gp @ [''queries''] then Some Dir else None)
                   else s q)"
      using tree None by (intro ext) auto
    finally show ?thesis .
  next
    case (Some nd)
    with ok have "s gp = Some Dir"
      by (cases nd) (auto simp: reset_domain_def rmtree_def)
    with par ok show ?thesis
      by (simp add: reset_domain_existing)
  qed
qed

section \<open>The whole run\<close>

lemma scope_file_below: "scope_file a = grizzly_path a @ [''SCOPE.yml'']"
  by (simp add: scope_file_def joinpath_plain)

lemma main_success:
  assumes "main a w s = (Inr u, s')"
  shows "\<exists>ds out s1 etl s2.
           dataset_name (domain_name a) = Inr ds \<and>
           run_command (subprocess_run w) (shell_cmd (TEMP_DIR w)) = Inr out \<and>
           reset_domain (grizzly_path a) s = (Inr (), s1) \<and>
           copy_scripts (grizzly_path a) ds (source_dataset a)
             (glob_sql (TEMP_DIR w) (sql_tree w)) [] s1 = (Inr etl, s2) \<and>
           write_text (scope_file a) (Yaml (csa_scope (schedule_interval a) etl)) s2 = (Inr (), s')"
proof -
  obtain ds where ds: "dataset_name (domain_name a) = Inr ds"
    by (simp add: dataset_name_def py_last_split)
  from assms ds obtain out where out: "run_command (subprocess_run w) (shell_cmd (TEMP_DIR w)) = Inr out"
    by (cases "run_command (subprocess_run w) (shell_cmd (TEMP_DIR w))") (auto simp: main_def)
  obtain r1 s1 where r: "reset_domain (grizzly_path a) s = (r1, s1)"
    by (cases "reset_domain (grizzly_path a) s") auto
  with assms ds out have r1: "r1 = Inr ()"
    by (cases r1) (auto simp: main_def)
  obtain r2 s2 where c: "copy_scripts (grizzly_path a) ds (source_dataset a)
             (glob_sql (TEMP_DIR w) (sql_tree w)) [] s1 = (r2, s2)"
    by (cases "copy_scripts (grizzly_path a) ds (source_dataset a)
             (glob_sql (TEMP_DIR w) (sql_tree w)) [] s1") auto
  with assms ds out r r1 obtain etl where etl: "r2 = Inr etl"
    by (cases r2) (auto simp: main_def)
  with assms ds out r r1 c
  have "write_text (scope_file a) (Yaml (csa_scope (schedule_interval a) etl)) s2 = (Inr (), s')"
    by (simp add: main_def)
  with ds out r r1 c etl show ?thesis by blast
qed

lemma main_success_intro:
  assumes "dataset_name (domain_name a) = Inr ds"
    and "run_command (subprocess_run w) (shell_cmd (TEMP_DIR w)) = Inr out"
    and "reset_domain (grizzly_path a) s = (Inr (), s1)"
    and "copy_scripts (grizzly_path a) ds (source_dataset a)
             (glob_sql (TEMP_DIR w) (sql_tree w)) [] s1 = (Inr etl, s2)"
    and "write_text (scope_file a) (Yaml (csa_scope (schedule_interval a) etl)) s2 = (Inr (), s')"
  shows "main a w s = (Inr (), s')"
  using assms by (simp add: main_def)

lemma glob_stems:
  "\<forall>f\<in>set (glob_sql temp_dir tree). CHR ''/'' \<notin> set (stem (fst f))"
  by (simp add: glob_sql_stem_no_slash)

lemma main_last_writer:
  assumes ok: "main a w s = (Inr u, s')" and ds: "dataset_name (domain_name a) = Inr ds"
    and es: "glob_sql (TEMP_DIR w) (sql_tree w) = es1 @ f # es2"
    and later: "\<forall>g\<in>set es2. csa_file_name ds (stem (fst g)) \<noteq> csa_file_name ds (stem (fst f))"
  shows "\<exists>n body. csa_file_name ds (stem (fst f)) = Inr n \<and> snd f = Inr body \<and>
           s' (grizzly_path a @ [''queries'', n @ ''.sql'']) =
             Some (File (Text (sql_file_data (source_dataset a) body))) \<and>
           s' (grizzly_path a @ [n @ ''.yml'']) =
             Some (File (Yaml [(''target_table_name'', YStr n),
                               (''job_write_mode'', YStr ''WRITE_TRUNCATE''),
                               (''stage_loading_query'', YStr (''queries/'' @ n @ ''.sql''))]))"
proof -
  from main_success [OF ok] ds obtain s1 etl s2 where
    loop: "copy_scripts (grizzly_path a) ds (source_dataset a) (es1 @ f # es2) [] s1 = (Inr etl, s2)" and
    scope: "write_text (scope_file a) (Yaml (csa_scope (schedule_interval a) etl)) s2 = (Inr (), s')"
    by (auto simp: es)
  have slash: "CHR ''/'' \<notin> set ds"
    using ds by (rule dataset_name_no_slash)
  have stems: "\<forall>g\<in>set (es1 @ f # es2). CHR ''/'' \<notin> set (stem (fst g))"
    using glob_stems [of "TEMP_DIR w" "sql_tree w"] by (simp only: es)
  from copy_scripts_last_writer [OF loop slash stems later] obtain n body where
    n: "csa_file_name ds (stem (fst f)) = Inr n" and body: "snd f = Inr body" and
    sql: "s2 (grizzly_path a @ [''queries'', n @ ''.sql'']) =
             Some (File (Text (sql_file_data (source_dataset a) body)))" and
    yml: "s2 (grizzly_path a @ [n @ ''.yml'']) =
             Some (File (Yaml [(''target_table_name'', YStr n),
                               (''job_write_mode'', YStr ''WRITE_TRUNCATE''),
                               (''stage_loading_query'', YStr (''queries/'' @ n @ ''.sql''))]))"
    by blast
  have dot: "CHR ''.'' \<in> set n"
    using csa_file_name_form [OF n] by auto
  then have "n @ ''.yml'' \<noteq> ''SCOPE.yml''"
    by auto
  moreover have "s' = s2(grizzly_path a @ [''SCOPE.yml''] \<mapsto>
      File (Yaml (csa_scope (schedule_interval a) etl)))"
    using write_text_success [OF scope] by (simp add: scope_file_below)
  ultimately show ?thesis
    using n body sql yml by auto
qed


text \<open>
  C4: after a run that succeeds, \<^verbatim>\<open>etl_scope\<close> in \<^verbatim>\<open>SCOPE.yml\<close> lists the derived names of
  the entries that the traversal yields for \<^verbatim>\<open>*.sql\<close>, one per entry and in its order,
  duplicates kept; and the SQL file of a derived name holds the text of the last entry
  that has this name.
\<close>

theorem etl_scope_one_entry_per_script:
  assumes "main a w s = (Inr u, s')" and "dataset_name (domain_name a) = Inr ds"
  shows "(\<exists>etl. s' (scope_file a) =
              Some (File (Yaml [(''schedule_interval'', YStr (schedule_interval a)),
                                (''execution_timeout_per_table'', YInt 1200),
                                (''etl_scope'', YList (map YStr etl))])) \<and>
            map (\<lambda>f. csa_file_name ds (stem (fst f))) (glob_sql (TEMP_DIR w) (sql_tree w))
              = map Inr etl) \<and>
         (glob_sql (TEMP_DIR w) (sql_tree w) = es1 @ f # es2 \<and>
          (\<forall>g\<in>set es2. csa_file_name ds (stem (fst g)) \<noteq> csa_file_name ds (stem (fst f))) \<longrightarrow>
            (\<exists>n body. csa_file_name ds (stem (fst f)) = Inr n \<and> snd f = Inr body \<and>
               s' (grizzly_path a @ [''queries'', n @ ''.sql'']) =
                 Some (File (Text (sql_file_data (source_dataset a) body)))))"
proof (intro conjI impI)
  from main_success [OF assms(1)] assms(2) obtain s1 etl s2 where
    loop: "copy_scripts (grizzly_path a) ds (source_dataset a)
             (glob_sql (TEMP_DIR w) (sql_tree w)) [] s1 = (Inr etl, s2)" and
    scope: "write_text (scope_file a) (Yaml (csa_scope (schedule_interval a) etl)) s2 = (Inr (), s')"
    by auto
  have "CHR ''/'' \<notin> set ds"
    using assms(2) by (rule dataset_name_no_slash)
  from copy_scripts_names [OF loop this glob_stems]
  have names: "map (\<lambda>f. csa_file_name ds (stem (fst f))) (glob_sql (TEMP_DIR w) (sql_tree w))
      = map Inr etl"
    by simp
  have "s' (scope_file a) = Some (File (Yaml (csa_scope (schedule_interval a) etl)))"
    using write_text_success [OF scope] by simp
  with names show "\<exists>etl. s' (scope_file a) =
              Some (File (Yaml [(''schedule_interval'', YStr (schedule_interval a)),
                                (''execution_timeout_per_table'', YInt 1200),
                                (''etl_scope'', YList (map YStr etl))])) \<and>
            map (\<lambda>f. csa_file_name ds (stem (fst f))) (glob_sql (TEMP_DIR w) (sql_tree w))
              = map Inr etl"
    unfolding csa_scope_def by blast
next
  assume "glob_sql (TEMP_DIR w) (sql_tree w) = es1 @ f # es2 \<and>
    (\<forall>g\<in>set es2. csa_file_name ds (stem (fst g)) \<noteq> csa_file_name ds (stem (fst f)))"
  then show "\<exists>n body. csa_file_name ds (stem (fst f)) = Inr n \<and> snd f = Inr body \<and>
               s' (grizzly_path a @ [''queries'', n @ ''.sql'']) =
                 Some (File (Text (sql_file_data (source_dataset a) body)))"
    using main_last_writer [OF assms, of es1 f es2] by blast
qed

theorem etl_scope_one_entry_per_script_witness:
  "snd (main scenario_args clash_env scenario_fs) (scope_file scenario_args) =
     Some (File (Yaml [(''schedule_interval'', YStr ''@daily''),
                       (''execution_timeout_per_table'', YInt 1200),
                       (''etl_scope'', YList [YStr ''bas_csa.logins'', YStr ''bas_csa.logins''])])) \<and>
   snd (main scenario_args clash_env scenario_fs)
       [''grizzly'', ''team'', ''bas_csa'', ''queries'', ''bas_csa.logins.sql'']
     = Some (File (Text ''SELECT 2''))"
proof -
  let ?e1 = "([''/'', ''tmp'', ''csa.x'', ''backends'', ''bigquery'', ''sql'', ''1_01_logins.sql''],
              Inr ''SELECT 1'' :: error + string)"
  let ?e2 = "([''/'', ''tmp'', ''csa.x'', ''backends'', ''bigquery'', ''sql'', ''sub'', ''2_07_Logins.sql''],
              Inr ''SELECT 2'' :: error + string)"
  have "fst (main scenario_args clash_env scenario_fs) = Inr ()"
    by code_simp
  then have ok: "main scenario_args clash_env scenario_fs
      = (Inr (), snd (main scenario_args clash_env scenario_fs))"
    by (simp add: prod_eq_iff)
  have ds: "dataset_name (domain_name scenario_args) = Inr ''bas_csa''"
    by code_simp
  have glob: "glob_sql (TEMP_DIR clash_env) (sql_tree clash_env) = [?e1] @ ?e2 # []"
    by code_simp
  have n1: "csa_file_name ''bas_csa''
      (stem [''/'', ''tmp'', ''csa.x'', ''backends'', ''bigquery'', ''sql'', ''1_01_logins.sql''])
      = Inr ''bas_csa.logins''"
    by code_simp
  have n2: "csa_file_name ''bas_csa''
      (stem [''/'', ''tmp'', ''csa.x'', ''backends'', ''bigquery'', ''sql'', ''sub'', ''2_07_Logins.sql''])
      = Inr ''bas_csa.logins''"
    by code_simp
  have gp: "grizzly_path scenario_args = [''grizzly'', ''team'', ''bas_csa'']"
    by code_simp
  have body: "sql_file_data (source_dataset scenario_args) ''SELECT 2'' = ''SELECT 2''"
    by code_simp
  have int: "schedule_interval scenario_args = ''@daily''"
    by (simp add: scenario_args_def)
  from etl_scope_one_entry_per_script [OF ok ds, of "[?e1]" ?e2 "[]"]
  show ?thesis
    by (auto simp: glob n1 n2 gp body int)
qed

theorem descriptor_has_three_fields:
  assumes "main a w s = (Inr u, s')" and "dataset_name (domain_name a) = Inr ds"
    and "f \<in> set (glob_sql (TEMP_DIR w) (sql_tree w))"
  shows "\<exists>n. csa_file_name ds (stem (fst f)) = Inr n \<and>
           s' (grizzly_path a @ [n @ ''.yml'']) =
             Some (File (Yaml [(''target_table_name'', YStr n),
                               (''job_write_mode'', YStr ''WRITE_TRUNCATE''),
                               (''stage_loading_query'', YStr (''queries/'' @ n @ ''.sql''))]))"
proof -
  let ?same = "\<lambda>g. csa_file_name ds (stem (fst g)) = csa_file_name ds (stem (fst f))"
  from assms(3) have "\<exists>g\<in>set (glob_sql (TEMP_DIR w) (sql_tree w)). ?same g"
    by blast
  from split_list_last_prop [OF this] obtain es1 g es2 where
    es: "glob_sql (TEMP_DIR w) (sql_tree w) = es1 @ g # es2" and g: "?same g" and
    later: "\<forall>h\<in>set es2. \<not> ?same h"
    by blast
  from later g have "\<forall>h\<in>set es2. csa_file_name ds (stem (fst h)) \<noteq> csa_file_name ds (stem (fst g))"
    by simp
  from main_last_writer [OF assms(1,2) es this] g show ?thesis
    by auto
qed

theorem descriptor_has_three_fields_witness:
  "\<exists>n. csa_file_name ''bas_csa''
          (stem [''/'', ''tmp'', ''csa.x'', ''backends'', ''bigquery'', ''sql'', ''csa_failed_logins.sql''])
          = Inr n \<and>
        snd (main scenario_args scenario_env scenario_fs) (grizzly_path scenario_args @ [n @ ''.yml'']) =
          Some (File (Yaml [(''target_table_name'', YStr n),
                            (''job_write_mode'', YStr ''WRITE_TRUNCATE''),
                            (''stage_loading_query'', YStr (''queries/'' @ n @ ''.sql''))]))"
proof -
  let ?f = "([''/'', ''tmp'', ''csa.x'', ''backends'', ''bigquery'', ''sql'', ''csa_failed_logins.sql''],
             Inr ''SELECT * FROM [MY_PROJECT_ID].[MY_DATASET_ID].events'' :: error + string)"
  have "fst (main scenario_args scenario_env scenario_fs) = Inr ()"
    by code_simp
  then have ok: "main scenario_args scenario_env scenario_fs
      = (Inr (), snd (main scenario_args scenario_env scenario_fs))"
    by (simp add: prod_eq_iff)
  have ds: "dataset_name (domain_name scenario_args) = Inr ''bas_csa''"
    by code_simp
  have "glob_sql (TEMP_DIR scenario_env) (sql_tree scenario_env) = [?f]"
    by code_simp
  then have mem: "?f \<in> set (glob_sql (TEMP_DIR scenario_env) (sql_tree scenario_env))"
    by simp
  from descriptor_has_three_fields [OF ok ds mem] show ?thesis
    by simp
qed

section \<open>What a run leaves in the domain directory\<close>

lemma main_contents:
  assumes ok: "main a w s = (Inr u, s')" and ds: "dataset_name (domain_name a) = Inr ds"
    and tree: "s (grizzly_path a) = None \<longrightarrow> (\<forall>q. prefix (grizzly_path a) q \<longrightarrow> s q = None)"
  shows "s' q = (if prefix (grizzly_path a) q
                 then (if q = grizzly_path a \<or> q = grizzly_path a @ [''queries'']
                       then Some Dir else None)
                 else s q) \<or>
         q = scope_file a \<or>
         (\<exists>f\<in>set (glob_sql (TEMP_DIR w) (sql_tree w)). \<exists>n.
            csa_file_name ds (stem (fst f)) = Inr n \<and>
            (q = grizzly_path a @ [n @ ''.yml''] \<or> q = grizzly_path a @ [''queries'', n @ ''.sql'']))"
proof -
  from main_success [OF ok] ds obtain s1 etl s2 where
    reset: "reset_domain (grizzly_path a) s = (Inr (), s1)" and
    loop: "copy_scripts (grizzly_path a) ds (source_dataset a)
             (glob_sql (TEMP_DIR w) (sql_tree w)) [] s1 = (Inr etl, s2)" and
    scope: "write_text (scope_file a) (Yaml (csa_scope (schedule_interval a) etl)) s2 = (Inr (), s')"
    by auto
  have slash: "CHR ''/'' \<notin> set ds"
    using ds by (rule dataset_name_no_slash)
  have s1: "s1 q = (if prefix (grizzly_path a) q
                    then (if q = grizzly_path a \<or> q = grizzly_path a @ [''queries'']
                          then Some Dir else None)
                    else s q)"
    using reset_domain_success(1) [OF reset tree] by simp
  have s': "q \<noteq> scope_file a \<Longrightarrow> s' q = s2 q"
    using write_text_success [OF scope] by simp
  show ?thesis
  proof (cases "q = scope_file a")
    case True
    then show ?thesis by simp
  next
    case False
    with s' have eq: "s' q = s2 q" by simp
    from copy_scripts_frame [OF loop slash glob_stems, of q]
    consider (same) "s2 q = s1 q"
      | (written) "\<exists>f\<in>set (glob_sql (TEMP_DIR w) (sql_tree w)). \<exists>n.
            csa_file_name ds (stem (fst f)) = Inr n \<and>
            (q = grizzly_path a @ [n @ ''.yml''] \<or> q = grizzly_path a @ [''queries'', n @ ''.sql''])"
      by blast
    then show ?thesis
    proof cases
      case same
      with eq s1 have "s' q = (if prefix (grizzly_path a) q
                    then (if q = grizzly_path a \<or> q = grizzly_path a @ [''queries'']
                          then Some Dir else None)
                    else s q)"
        by simp
      then show ?thesis by blast
    next
      case written
      then show ?thesis by blast
    qed
  qed
qed

lemma main_frame:
  assumes ok: "main a w s = (Inr u, s')"
    and tree: "s (grizzly_path a) = None \<longrightarrow> (\<forall>q. prefix (grizzly_path a) q \<longrightarrow> s q = None)"
    and out: "\<not> prefix (grizzly_path a) q"
  shows "s' q = s q"
proof -
  obtain ds where ds: "dataset_name (domain_name a) = Inr ds"
    using main_success [OF ok] by blast
  from main_contents [OF ok ds tree, of q] out show ?thesis
    by (auto simp: scope_file_below)
qed

lemma main_keeps_directory:
  assumes ok: "main a w s = (Inr u, s')"
    and tree: "s (grizzly_path a) = None \<longrightarrow> (\<forall>q. prefix (grizzly_path a) q \<longrightarrow> s q = None)"
  shows "s' (grizzly_path a) = Some Dir"
proof -
  obtain ds where ds: "dataset_name (domain_name a) = Inr ds"
    using main_success [OF ok] by blast
  from main_contents [OF ok ds tree, of "grizzly_path a"] show ?thesis
    by (auto simp: scope_file_below split: if_splits)
qed

lemma copy_scripts_agree:
  assumes "copy_scripts gp ds src es acc s = (Inr etl, s')"
    and "copy_scripts gp ds src es acc t = (Inr etl', t')"
    and "CHR ''/'' \<notin> set ds" and "\<forall>f\<in>set es. CHR ''/'' \<notin> set (stem (fst f))"
    and "s q = t q"
  shows "s' q = t' q \<and> etl = etl'"
  using assms
proof (induction es arbitrary: acc s t)
  case Nil
  then show ?case by simp
next
  case (Cons f es)
  from Cons.prems(1) obtain n s1 where
    step_s: "copy_script gp ds src f s = (Inr n, s1)" and
    rest_s: "copy_scripts gp ds src es (acc @ [n]) s1 = (Inr etl, s')"
    by (auto split: prod.splits sum.splits)
  from Cons.prems(2) obtain m t1 where
    step_t: "copy_script gp ds src f t = (Inr m, t1)" and
    rest_t: "copy_scripts gp ds src es (acc @ [m]) t1 = (Inr etl', t')"
    by (auto split: prod.splits sum.splits)
  from copy_script_success [OF step_s] copy_script_success [OF step_t] Cons.prems(3,4,5)
  have "m = n" and "s1 q = t1 q"
    by auto
  with Cons.IH [OF rest_s _ Cons.prems(3)] rest_t Cons.prems(4) show ?case
    by simp
qed


text \<open>
  C6: when the domain directory exists (and is neither the working directory nor the
  root), resetting it succeeds and leaves below it the directory itself and its
  \<^verbatim>\<open>queries\<close> subdirectory, nothing else; the rest of the file system is untouched. When
  it does not exist, nothing is removed and no error is raised: the two directories are
  made. After a successful run on an existing domain directory, whatever is below it
  is the directory, \<^verbatim>\<open>queries\<close>, \<^verbatim>\<open>SCOPE.yml\<close>, or a descriptor or SQL file of a script of
  this run.
\<close>

theorem reset_domain_clears:
  "(s gp = Some Dir \<and> gp \<noteq> [] \<and> gp \<noteq> [''/''] \<and> s (parent gp) = Some Dir \<longrightarrow>
      reset_domain gp s =
        (Inr (), \<lambda>q. if prefix gp q
                      then (if q = gp \<or> q = gp @ [''queries''] then Some Dir else None)
                      else s q)) \<and>
   (s gp = None \<and> (\<forall>q. prefix gp q \<longrightarrow> s q = None) \<and> s (parent gp) = Some Dir \<longrightarrow>
      reset_domain gp s = (Inr (), s(gp \<mapsto> Dir, gp @ [''queries''] \<mapsto> Dir))) \<and>
   (main a w s0 = (Inr u, s') \<and> s0 (grizzly_path a) \<noteq> None \<and>
    dataset_name (domain_name a) = Inr ds \<and> prefix (grizzly_path a) q \<and> s' q \<noteq> None \<longrightarrow>
      q = grizzly_path a \<or> q = grizzly_path a @ [''queries''] \<or> q = scope_file a \<or>
      (\<exists>f\<in>set (glob_sql (TEMP_DIR w) (sql_tree w)). \<exists>n.
         csa_file_name ds (stem (fst f)) = Inr n \<and>
         (q = grizzly_path a @ [n @ ''.yml''] \<or> q = grizzly_path a @ [''queries'', n @ ''.sql''])))"
proof (intro conjI impI)
  assume "s gp = Some Dir \<and> gp \<noteq> [] \<and> gp \<noteq> [''/''] \<and> s (parent gp) = Some Dir"
  then show "reset_domain gp s =
        (Inr (), \<lambda>q. if prefix gp q
                      then (if q = gp \<or> q = gp @ [''queries''] then Some Dir else None)
                      else s q)"
    by (simp add: reset_domain_existing)
next
  assume "s gp = None \<and> (\<forall>q. prefix gp q \<longrightarrow> s q = None) \<and> s (parent gp) = Some Dir"
  then show "reset_domain gp s = (Inr (), s(gp \<mapsto> Dir, gp @ [''queries''] \<mapsto> Dir))"
    by (simp add: reset_domain_missing)
next
  assume a: "main a w s0 = (Inr u, s') \<and> s0 (grizzly_path a) \<noteq> None \<and>
    dataset_name (domain_name a) = Inr ds \<and> prefix (grizzly_path a) q \<and> s' q \<noteq> None"
  then have "s0 (grizzly_path a) = None \<longrightarrow> (\<forall>q. prefix (grizzly_path a) q \<longrightarrow> s0 q = None)"
    by auto
  from main_contents [OF _ _ this, of w u s' ds q] a
  show "q = grizzly_path a \<or> q = grizzly_path a @ [''queries''] \<or> q = scope_file a \<or>
      (\<exists>f\<in>set (glob_sql (TEMP_DIR w) (sql_tree w)). \<exists>n.
         csa_file_name ds (stem (fst f)) = Inr n \<and>
         (q = grizzly_path a @ [n @ ''.yml''] \<or> q = grizzly_path a @ [''queries'', n @ ''.sql'']))"
    by (auto split: if_splits)
qed

theorem reset_domain_clears_witness:
  "fst (reset_domain [''grizzly'', ''team'', ''bas_csa''] stale_fs) = Inr () \<and>
   snd (reset_domain [''grizzly'', ''team'', ''bas_csa''] stale_fs)
     [''grizzly'', ''team'', ''bas_csa'', ''old.yml''] = None \<and>
   snd (reset_domain [''grizzly'', ''team'', ''bas_csa''] stale_fs)
     [''grizzly'', ''team'', ''bas_csa'', ''queries''] = Some Dir \<and>
   fst (reset_domain [''grizzly'', ''team'', ''bas_csa''] scenario_fs) = Inr () \<and>
   snd (reset_domain [''grizzly'', ''team'', ''bas_csa''] scenario_fs)
     [''grizzly'', ''team'', ''bas_csa'', ''queries''] = Some Dir \<and>
   snd (main scenario_args scenario_env stale_fs)
     [''grizzly'', ''team'', ''bas_csa'', ''queries'', ''old.sql''] = None"
proof -
  let ?gp = "[''grizzly'', ''team'', ''bas_csa'']"
  let ?q = "[''grizzly'', ''team'', ''bas_csa'', ''queries'', ''old.sql'']"
  let ?f = "([''/'', ''tmp'', ''csa.x'', ''backends'', ''bigquery'', ''sql'', ''csa_failed_logins.sql''],
             Inr ''SELECT * FROM [MY_PROJECT_ID].[MY_DATASET_ID].events'' :: error + string)"
  have existing: "stale_fs ?gp = Some Dir \<and> ?gp \<noteq> [] \<and> ?gp \<noteq> [''/''] \<and>
      stale_fs (parent ?gp) = Some Dir"
    by (simp add: stale_fs_def scenario_fs_def parent_def)
  have missing: "scenario_fs ?gp = None \<and> (\<forall>q. prefix ?gp q \<longrightarrow> scenario_fs q = None) \<and>
      scenario_fs (parent ?gp) = Some Dir"
    by (auto simp: scenario_fs_def parent_def prefix_def)
  have "fst (main scenario_args scenario_env stale_fs) = Inr ()"
    by code_simp
  then have ok: "main scenario_args scenario_env stale_fs
      = (Inr (), snd (main scenario_args scenario_env stale_fs))"
    by (simp add: prod_eq_iff)
  have ds: "dataset_name (domain_name scenario_args) = Inr ''bas_csa''"
    by code_simp
  have gp: "grizzly_path scenario_args = ?gp"
    by code_simp
  have scope: "scope_file scenario_args = ?gp @ [''SCOPE.yml'']"
    by code_simp
  have glob: "glob_sql (TEMP_DIR scenario_env) (sql_tree scenario_env) = [?f]"
    by code_simp
  have name: "csa_file_name ''bas_csa''
      (stem [''/'', ''tmp'', ''csa.x'', ''backends'', ''bigquery'', ''sql'', ''csa_failed_logins.sql''])
      = Inr ''bas_csa.logins''"
    by code_simp
  have there: "stale_fs (grizzly_path scenario_args) \<noteq> None"
    using existing by (simp add: gp)
  have "snd (main scenario_args scenario_env stale_fs) ?q = None"
  proof (rule ccontr)
    assume "snd (main scenario_args scenario_env stale_fs) ?q \<noteq> None"
    with reset_domain_clears [of stale_fs ?gp scenario_args scenario_env stale_fs "()"
        "snd (main scenario_args scenario_env stale_fs)" "''bas_csa''" ?q] ok ds there
    show False
      by (simp add: gp scope glob name)
  qed
  with reset_domain_clears [of stale_fs ?gp scenario_args scenario_env stale_fs "()"
        "snd (main scenario_args scenario_env stale_fs)" "''bas_csa''" ?q]
    reset_domain_clears [of scenario_fs ?gp scenario_args scenario_env stale_fs "()"
        "snd (main scenario_args scenario_env stale_fs)" "''bas_csa''" ?q]
    existing missing
  show ?thesis
    by simp
qed

text \<open>
  C8: on a file system that is a tree (nothing exists below the domain directory when the
  directory itself is missing), a second run with the same arguments and the same clone,
  started where a successful first run ended, succeeds and leaves the file system exactly
  as the first run left it; and two successful runs from any two such file systems leave
  the same nodes at and below the domain directory.
\<close>

theorem rerun_reproduces_domain:
  assumes ok: "main a w s = (Inr u, s')"
    and tree: "s (grizzly_path a) = None \<longrightarrow> (\<forall>q. prefix (grizzly_path a) q \<longrightarrow> s q = None)"
  shows "main a w s' = (Inr (), s') \<and>
         (main a w t = (Inr v, t') \<and>
          (t (grizzly_path a) = None \<longrightarrow> (\<forall>q. prefix (grizzly_path a) q \<longrightarrow> t q = None)) \<and>
          prefix (grizzly_path a) q \<longrightarrow> t' q = s' q)"
proof (intro conjI impI)
  let ?gp = "grizzly_path a"
  from main_success [OF ok] obtain ds out s1 etl s2 where
    ds: "dataset_name (domain_name a) = Inr ds" and
    out: "run_command (subprocess_run w) (shell_cmd (TEMP_DIR w)) = Inr out" and
    reset: "reset_domain ?gp s = (Inr (), s1)" and
    loop: "copy_scripts ?gp ds (source_dataset a)
             (glob_sql (TEMP_DIR w) (sql_tree w)) [] s1 = (Inr etl, s2)" and
    scope: "write_text (scope_file a) (Yaml (csa_scope (schedule_interval a) etl)) s2 = (Inr (), s')"
    by blast
  note r = reset_domain_success [OF reset tree]
  have slash: "CHR ''/'' \<notin> set ds"
    using ds by (rule dataset_name_no_slash)
  {
    have dir: "s' ?gp = Some Dir"
      using ok tree by (rule main_keeps_directory)
    have "\<not> prefix ?gp (parent ?gp)"
      using r(2,3) by (rule not_prefix_parent)
    then have "s' (parent ?gp) = s (parent ?gp)"
      using main_frame [OF ok tree] by simp
    with r(4) have par: "s' (parent ?gp) = Some Dir"
      by simp
    have "reset_domain ?gp s' =
        (Inr (), \<lambda>q. if prefix ?gp q
                      then (if q = ?gp \<or> q = ?gp @ [''queries''] then Some Dir else None)
                      else s' q)"
      using dir r(2,3) par by (rule reset_domain_existing)
    moreover have "(\<lambda>q. if prefix ?gp q
                      then (if q = ?gp \<or> q = ?gp @ [''queries''] then Some Dir else None)
                      else s' q) = s1"
      unfolding r(1) using main_frame [OF ok tree] by (intro ext) simp
    ultimately have "reset_domain ?gp s' = (Inr (), s1)"
      by simp
    from main_success_intro [OF ds out this loop scope]
    show "main a w s' = (Inr (), s')" .
  }
  assume other: "main a w t = (Inr v, t') \<and>
          (t ?gp = None \<longrightarrow> (\<forall>q. prefix ?gp q \<longrightarrow> t q = None)) \<and> prefix ?gp q"
  then have ok_t: "main a w t = (Inr v, t')"
    and tree_t: "t ?gp = None \<longrightarrow> (\<forall>q. prefix ?gp q \<longrightarrow> t q = None)"
    and q: "prefix ?gp q"
    by simp_all
  from main_success [OF ok_t] ds obtain t1 etl' t2 where
    reset_t: "reset_domain ?gp t = (Inr (), t1)" and
    loop_t: "copy_scripts ?gp ds (source_dataset a)
             (glob_sql (TEMP_DIR w) (sql_tree w)) [] t1 = (Inr etl', t2)" and
    scope_t: "write_text (scope_file a) (Yaml (csa_scope (schedule_interval a) etl')) t2 = (Inr (), t')"
    by auto
  have "t1 q = s1 q"
    using reset_domain_success(1) [OF reset_t tree_t] r(1) q by simp
  from copy_scripts_agree [OF loop_t loop slash glob_stems this]
  have "t2 q = s2 q" and "etl' = etl"
    by simp_all
  then show "t' q = s' q"
    using write_text_success [OF scope] write_text_success [OF scope_t] by simp
qed

theorem rerun_reproduces_domain_witness:
  "main scenario_args scenario_env (snd (main scenario_args scenario_env scenario_fs))
     = (Inr (), snd (main scenario_args scenario_env scenario_fs)) \<and>
   snd (main scenario_args scenario_env stale_fs) [''grizzly'', ''team'', ''bas_csa'', ''old.yml'']
     = snd (main scenario_args scenario_env scenario_fs) [''grizzly'', ''team'', ''bas_csa'', ''old.yml'']"
proof -
  let ?gp = "[''grizzly'', ''team'', ''bas_csa'']"
  have gp: "grizzly_path scenario_args = ?gp"
    by code_simp
  have "fst (main scenario_args scenario_env scenario_fs) = Inr ()"
    by code_simp
  then have ok: "main scenario_args scenario_env scenario_fs
      = (Inr (), snd (main scenario_args scenario_env scenario_fs))"
    by (simp add: prod_eq_iff)
  have "fst (main scenario_args scenario_env stale_fs) = Inr ()"
    by code_simp
  then have ok_t: "main scenario_args scenario_env stale_fs
      = (Inr (), snd (main scenario_args scenario_env stale_fs))"
    by (simp add: prod_eq_iff)
  have tree: "scenario_fs (grizzly_path scenario_args) = None \<longrightarrow>
      (\<forall>q. prefix (grizzly_path scenario_args) q \<longrightarrow> scenario_fs q = None)"
    unfolding gp by (auto simp: scenario_fs_def prefix_def)
  have tree_t: "stale_fs (grizzly_path scenario_args) = None \<longrightarrow>
      (\<forall>q. prefix (grizzly_path scenario_args) q \<longrightarrow> stale_fs q = None)"
    unfolding gp by (simp add: stale_fs_def)
  have q: "prefix (grizzly_path scenario_args) [''grizzly'', ''team'', ''bas_csa'', ''old.yml'']"
    unfolding gp by simp
  from rerun_reproduces_domain [OF ok tree, of stale_fs "()" "snd (main scenario_args scenario_env stale_fs)"
      "[''grizzly'', ''team'', ''bas_csa'', ''old.yml'']"] ok_t tree_t q
  show ?thesis
    by blast
qed

end
